theory Spec2Isabelle
  imports Complex_Main "HOL-Library.Multiset"
begin

section \<open>The MCDA scoring and allocation engine\<close>

text \<open>
  The repository holds two allocation engines: \<open>scoreAndAllocate\<close> in \<open>lib/mcda.ts\<close>
  and \<open>allocateBudget\<close> in \<open>app/mcda/page.tsx\<close>. Both are pure functions on
  JavaScript numbers. A JavaScript number is an IEEE-754 double; here it is a \<^typ>\<open>real\<close>,
  so arithmetic is exact and every number is finite (there is no NaN and no infinity).
  The test \<open>x || 1\<close> on a number is then \<open>if x = 0 then 1 else x\<close>, and an optional field
  \<open>f?: number\<close> is a \<^typ>\<open>real option\<close>.

  What this leaves out: \<open>Number.isFinite\<close> is true of every number here, so the filter in
  \<open>rng\<close> keeps every value, and an indicator that is NaN or infinite, or a range whose
  width overflows, is not an input of the model; the rounding of each operation to a
  double is not modelled, so an amount that the source computes a last place away from
  the exact one, and the integer that \<open>Math.round\<close> makes of it, can differ from the
  value here; limits of the JavaScript engine (the number of arguments of the spread
  call \<open>Math.min(...xs)\<close>, property names with a special meaning) are not modelled.
  Every statement below is about finite inputs in exact arithmetic.
\<close>

subsection \<open>lib/mcda.ts: types\<close>

text \<open>Every object of the engine carries the region key \<open>la\<close>; the records below extend
  one base record, so that \<open>la\<close> reads the key of each of them.\<close>

record Keyed =
  la :: string

record MCDAInput = Keyed +
  growth65 :: real
  oadr :: real
  dwellingsPer1k65 :: real
  medianIncome :: real
  grantsPer65 :: real
  ruralIndex :: "real option"

record Weights =
  wGrowth :: real
  wOadr :: real
  wHousingInv :: real
  wIncomeInv :: real
  wGrantsInv :: real

record Options =
  ruralUplift :: "real option"
  floorEUR :: "real option"
  capShare :: "real option"
  budgetEUR :: real

record Range =
  min_r :: real
  max_r :: real

text \<open>The objects built by \<open>scoreAndAllocate\<close>: \<open>{la, score}\<close>, then with \<open>share\<close>,
  then with \<open>eur\<close>; and \<open>{la, room}\<close> for the headroom table.\<close>

record Item = Keyed +
  score :: real

record Shared = Item +
  share :: real

record Alloc = Shared +
  eur :: real

record Room = Keyed +
  room :: real

text \<open>The only place where the source can raise: \<open>room.find(...)!\<close> followed by \<open>r.room\<close>
  is a TypeError when \<open>find\<close> returns \<open>undefined\<close>.\<close>

datatype error = TypeError

subsection \<open>JavaScript primitives\<close>

definition Number_isFinite :: "real \<Rightarrow> bool" where
  "Number_isFinite x = True"

text \<open>\<open>x || 1\<close> on a number \<open>x\<close>.\<close>

definition or_one :: "real \<Rightarrow> real" where
  "or_one x = (if x = 0 then 1 else x)"

text \<open>Truthiness of an optional number: \<open>undefined\<close> and \<open>0\<close> are falsy.\<close>

definition truthy :: "real option \<Rightarrow> bool" where
  "truthy v = (case v of None \<Rightarrow> False | Some x \<Rightarrow> x \<noteq> 0)"

text \<open>\<open>v ?? d\<close> on an optional number.\<close>

definition nullish :: "real option \<Rightarrow> real \<Rightarrow> real" where
  "nullish v d = (case v of None \<Rightarrow> d | Some x \<Rightarrow> x)"

text \<open>\<open>Math.round\<close> rounds to the nearest integer, a tie towards plus infinity.\<close>

definition Math_round :: "real \<Rightarrow> real" where
  "Math_round x = of_int \<lfloor>x + 1 / 2\<rfloor>"

subsection \<open>lib/mcda.ts: normaliser\<close>

definition rng :: "real list \<Rightarrow> Range" where
  "rng vals =
     (case filter Number_isFinite vals of
        [] \<Rightarrow> \<lparr>min_r = 0, max_r = 1\<rparr>
      | x # xs \<Rightarrow> \<lparr>min_r = fold min xs x, max_r = fold max xs x\<rparr>)"

definition mm :: "real \<Rightarrow> Range \<Rightarrow> real" where
  "mm x r = (if max_r r = min_r r then 1 / 2 else (x - min_r r) / (max_r r - min_r r))"

definition mmInv :: "real \<Rightarrow> Range \<Rightarrow> real" where
  "mmInv x r = (if max_r r = min_r r then 1 / 2 else (max_r r - x) / (max_r r - min_r r))"

subsection \<open>lib/mcda.ts: scoreAndAllocate\<close>

text \<open>The body of \<open>rows.map(r => ...)\<close> that builds \<open>items\<close>.\<close>

definition item_of ::
  "Weights \<Rightarrow> Options \<Rightarrow> Range \<Rightarrow> Range \<Rightarrow> Range \<Rightarrow> Range \<Rightarrow> Range \<Rightarrow> MCDAInput \<Rightarrow> Item" where
  "item_of w opt gR oR hR iR eR r =
     (let sGrowth = mm (growth65 r) gR;
          sOadr = mm (oadr r) oR;
          sHInv = mmInv (dwellingsPer1k65 r) hR;
          sIInv = mmInv (medianIncome r) iR;
          sGInv = mmInv (grantsPer65 r) eR;
          score0 = wGrowth w * sGrowth + wOadr w * sOadr + wHousingInv w * sHInv
                   + wIncomeInv w * sIInv + wGrantsInv w * sGInv;
          ri = max 0 (min 1 (nullish (ruralIndex r) 0))
      in \<lparr>la = la r,
          score = (case ruralUplift opt of
                     None \<Rightarrow> score0
                   | Some u \<Rightarrow> if u \<noteq> 0 \<and> u > 0 then score0 * (1 + u * ri) else score0)\<rparr>)"

definition items_of :: "MCDAInput list \<Rightarrow> Weights \<Rightarrow> Options \<Rightarrow> Item list" where
  "items_of rows w opt =
     (let gR = rng (map growth65 rows);
          oR = rng (map oadr rows);
          hR = rng (map dwellingsPer1k65 rows);
          iR = rng (map medianIncome rows);
          eR = rng (map grantsPer65 rows)
      in map (item_of w opt gR oR hR iR eR) rows)"

definition shares_of :: "Item list \<Rightarrow> Shared list" where
  "shares_of items =
     (let totalScore = or_one (foldl (\<lambda>s a. s + score a) 0 items)
      in map (\<lambda>a. \<lparr>la = la a, score = score a, share = score a / totalScore\<rparr>) items)"

text \<open>The second \<open>allocs.map\<close> of the cap/floor branch: the top-up of each region from
  its row of the headroom table, looked up by key with \<open>find\<close>.\<close>

fun topUps :: "Room list \<Rightarrow> real \<Rightarrow> real \<Rightarrow> Alloc list \<Rightarrow> error + Alloc list" where
  "topUps rooms roomTotal rem [] = Inr []"
| "topUps rooms roomTotal rem (a # as) =
     (case find (\<lambda>x. la x = la a) rooms of
        None \<Rightarrow> Inl TypeError
      | Some r \<Rightarrow>
          (case topUps rooms roomTotal rem as of
             Inl e \<Rightarrow> Inl e
           | Inr rest \<Rightarrow>
               Inr (\<lparr>la = la a, score = score a, share = share a,
                     eur = eur a + max 0 (room r) / roomTotal * rem\<rparr> # rest)))"

text \<open>\<open>allocs\<close> as it stands before the \<open>return\<close> statement.\<close>

definition allocs_of :: "MCDAInput list \<Rightarrow> Weights \<Rightarrow> Options \<Rightarrow> error + Alloc list" where
  "allocs_of rows w opt =
     (let allocs = shares_of (items_of rows w opt);
          B = budgetEUR opt
      in if truthy (floorEUR opt) \<or> truthy (capShare opt) then
           (let floor = max 0 (nullish (floorEUR opt) 0);
                cap = max 0 (min 1 (nullish (capShare opt) 1));
                allocs1 = map (\<lambda>a. \<lparr>la = la a, score = score a, share = share a,
                                     eur = min (max (share a * B) floor) (cap * B)\<rparr>) allocs;
                spent = foldl (\<lambda>s a. s + eur a) 0 allocs1;
                rem = max 0 (B - spent);
                rooms = map (\<lambda>a. \<lparr>la = la a, room = cap * B - eur a\<rparr>) allocs1;
                roomTotal = or_one (foldl (\<lambda>s r. s + max 0 (room r)) 0 rooms)
            in topUps rooms roomTotal rem allocs1)
         else
           Inr (map (\<lambda>a. \<lparr>la = la a, score = score a, share = share a, eur = share a * B\<rparr>) allocs))"

definition scoreAndAllocate :: "MCDAInput list \<Rightarrow> Weights \<Rightarrow> Options \<Rightarrow> error + Alloc list" where
  "scoreAndAllocate rows w opt =
     (case allocs_of rows w opt of
        Inl e \<Rightarrow> Inl e
      | Inr allocs \<Rightarrow>
          Inr (sort_key (\<lambda>a. - eur a)
                 (map (\<lambda>a. \<lparr>la = la a, score = score a, share = share a,
                             eur = Math_round (eur a)\<rparr>) allocs)))"

subsection \<open>app/mcda/page.tsx: allocateBudget\<close>

text \<open>
  \<open>scores\<close> is a JavaScript object from region names to numbers. It is given here as the
  list of its entries in key order, so \<open>names = Object.keys(scores)\<close> is the list of first
  components, and its keys are distinct. The objects \<open>boosted\<close> and \<open>alloc\<close> have the same
  keys; they are the lists of their values in that order, and each loop
  \<open>for (const n of names)\<close> that reads and writes only the entry of \<open>n\<close> is a map over
  the list. With no region at all the zero-score branch divides by zero; the quotient is
  used only inside the loop over \<open>names\<close>, which is then empty, so the result is the
  empty object in the source and the empty list here.
\<close>

record Opts =
  maxShare :: real
  minEuro :: real
  ruralUplift :: real
  ruralSet :: "string set option"

definition boosted_of :: "Opts \<Rightarrow> string \<times> real \<Rightarrow> real" where
  "boosted_of opts e =
     (let b = max 0 (snd e)
      in if (case ruralSet opts of None \<Rightarrow> False | Some s \<Rightarrow> fst e \<in> s)
         then b * (1 + ruralUplift opts) else b)"

text \<open>The floor loop: returns the deficit and the raised allocations.\<close>

fun floor_pass :: "real \<Rightarrow> real list \<Rightarrow> real \<times> real list" where
  "floor_pass m [] = (0, [])"
| "floor_pass m (a # as) =
     (let (deficit, as') = floor_pass m as
      in if a < m then ((m - a) + deficit, m # as') else (deficit, a # as'))"

text \<open>Recovery of the deficit from the donors, the regions strictly above the floor.\<close>

definition donors_pay :: "real \<Rightarrow> real \<Rightarrow> real list \<Rightarrow> real list" where
  "donors_pay m deficit alloc =
     (if deficit > 0 then
        (let donors = filter (\<lambda>a. a > m) alloc;
             pool = or_one (foldl (\<lambda>s a. s + (a - m)) 0 donors)
         in map (\<lambda>a. if a > m then a - (a - m) / pool * deficit else a) alloc)
      else alloc)"

text \<open>The block under the comment \<open>// floor\<close>.\<close>

definition floor_block :: "real \<Rightarrow> real list \<Rightarrow> real list" where
  "floor_block m alloc =
     (let (deficit, alloc1) = floor_pass m alloc
      in donors_pay m deficit alloc1)"

text \<open>The cap loop: returns the excess and the clipped allocations.\<close>

fun cap_pass :: "real \<Rightarrow> real list \<Rightarrow> real \<times> real list" where
  "cap_pass cap [] = (0, [])"
| "cap_pass cap (a # as) =
     (let (excess, as') = cap_pass cap as
      in if a > cap then ((a - cap) + excess, cap # as') else (excess, a # as'))"

text \<open>Redistribution of the excess to the receivers, the regions strictly under the cap,
  weighted by their boosted score. The argument pairs each boosted score with the
  allocation of the same region.\<close>

definition receivers_get :: "real \<Rightarrow> real \<Rightarrow> (real \<times> real) list \<Rightarrow> real list" where
  "receivers_get cap excess ba =
     (if excess > 0 then
        (let receivers = filter (\<lambda>(b, a). a < cap) ba;
             s = foldl (\<lambda>s (b, a). s + b) 0 receivers;
             wsum = (if s = 0 then real (length receivers) else s)
         in map (\<lambda>(b, a). if a < cap
                    then a + (if wsum \<noteq> 0 then b / wsum else 1 / real (length receivers)) * excess
                    else a) ba)
      else map snd ba)"

text \<open>The block under the comment \<open>// cap\<close>, given the cap in euros.\<close>

definition cap_block :: "real \<Rightarrow> real list \<Rightarrow> real list \<Rightarrow> real list" where
  "cap_block cap boosted alloc =
     (let (excess, alloc3) = cap_pass cap alloc
      in receivers_get cap excess (zip boosted alloc3))"

text \<open>\<open>alloc\<close> as it stands before the final renormalisation.\<close>

definition alloc_raw :: "(string \<times> real) list \<Rightarrow> real \<Rightarrow> Opts \<Rightarrow> real list" where
  "alloc_raw scores budget opts =
     (let names = map fst scores;
          boosted = map (boosted_of opts) scores;
          total = foldl (+) 0 boosted
      in if total \<le> 0 then
           (let floors = max 0 (minEuro opts) * real (length names);
                even = max 0 ((budget - floors) / real (length names))
            in map (\<lambda>n. max 0 (minEuro opts) + max 0 even) names)
         else
           (let alloc0 = map (\<lambda>b. (b / total) * budget) boosted;
                alloc2 = floor_block (minEuro opts) alloc0;
                cap = budget * max 0 (min 1 (or_one (maxShare opts)))
            in cap_block cap boosted alloc2))"

definition allocateBudget :: "(string \<times> real) list \<Rightarrow> real \<Rightarrow> Opts \<Rightarrow> (string \<times> real) list" where
  "allocateBudget scores budget opts =
     (let names = map fst scores;
          alloc = alloc_raw scores budget opts;
          sum = or_one (foldl (+) 0 alloc);
          k = budget / sum
      in zip names (map (\<lambda>v. v * k) alloc))"

subsection \<open>Notions used to state the properties\<close>

text \<open>The euro total of a result of \<open>scoreAndAllocate\<close>, and the euro allocation it
  reports for one region (the result is sorted, so the region is looked up by key).\<close>

definition sum_eur :: "error + Alloc list \<Rightarrow> real" where
  "sum_eur res = (case res of Inl e \<Rightarrow> 0 | Inr allocs \<Rightarrow> sum_list (map eur allocs))"

definition eur_of :: "string \<Rightarrow> error + Alloc list \<Rightarrow> real option" where
  "eur_of k res =
     (case res of
        Inl e \<Rightarrow> None
      | Inr allocs \<Rightarrow> map_option eur (find (\<lambda>a. la a = k) allocs))"

text \<open>The object that the final \<open>map\<close> of \<open>scoreAndAllocate\<close> builds from an entry of
  \<open>allocs\<close>.\<close>

definition rounded :: "Alloc \<Rightarrow> Alloc" where
  "rounded a = \<lparr>la = la a, score = score a, share = share a, eur = Math_round (eur a)\<rparr>"

text \<open>The conservation test of the specification: the total equals the budget within a
  relative epsilon of \<open>1e-6\<close>.\<close>

definition within_eps :: "real \<Rightarrow> real \<Rightarrow> bool" where
  "within_eps s budget = (\<bar>s - budget\<bar> \<le> \<bar>budget\<bar> / 1000000)"

text \<open>The weighted sum of the normalised indicators of a row, as \<open>item_of\<close> computes it
  before the uplift.\<close>

definition weighted_sum ::
  "Weights \<Rightarrow> Range \<Rightarrow> Range \<Rightarrow> Range \<Rightarrow> Range \<Rightarrow> Range \<Rightarrow> MCDAInput \<Rightarrow> real" where
  "weighted_sum w gR oR hR iR eR r =
     wGrowth w * mm (growth65 r) gR + wOadr w * mm (oadr r) oR
     + wHousingInv w * mmInv (dwellingsPer1k65 r) hR
     + wIncomeInv w * mmInv (medianIncome r) iR + wGrantsInv w * mmInv (grantsPer65 r) eR"

text \<open>The uplifted score in the words of the specification: the caller's uplift is clamped
  into \<open>[0, 0.25]\<close> and multiplies the rural index.\<close>

definition spec_uplift_score :: "real \<Rightarrow> real \<Rightarrow> real \<Rightarrow> real" where
  "spec_uplift_score s uplift ri = s * (1 + max 0 (min (1 / 4) uplift) * ri)"

definition spec_scores :: "MCDAInput list \<Rightarrow> Weights \<Rightarrow> real \<Rightarrow> real list" where
  "spec_scores rows w uplift =
     (let gR = rng (map growth65 rows);
          oR = rng (map oadr rows);
          hR = rng (map dwellingsPer1k65 rows);
          iR = rng (map medianIncome rows);
          eR = rng (map grantsPer65 rows)
      in map (\<lambda>r. spec_uplift_score (weighted_sum w gR oR hR iR eR r) uplift
                      (nullish (ruralIndex r) 0)) rows)"

text \<open>The all-zero fallback in the words of the specification.\<close>

definition spec_equal_split :: "real \<Rightarrow> real \<Rightarrow> nat \<Rightarrow> real" where
  "spec_equal_split budget fl n = max fl ((budget - fl * real n) / real n)"

subsection \<open>Closed forms of the blocks of allocateBudget\<close>

text \<open>The deficit that the floor loop accumulates and the surplus pool of the donors.\<close>

definition deficit_of :: "real \<Rightarrow> real list \<Rightarrow> real" where
  "deficit_of m xs = sum_list (map (\<lambda>a. if a < m then m - a else 0) xs)"

definition pool_of :: "real \<Rightarrow> real list \<Rightarrow> real" where
  "pool_of m xs = sum_list (map (\<lambda>a. if m < a then a - m else 0) xs)"

text \<open>What the floor block does to one allocation, given the deficit and the pool.\<close>

definition floor_fn :: "real \<Rightarrow> real \<Rightarrow> real \<Rightarrow> real \<Rightarrow> real" where
  "floor_fn m d p a = (if a < m then m else if 0 < d \<and> m < a then a - (a - m) / or_one p * d else a)"

text \<open>The excess that the cap loop accumulates; the summed boosted score and the number of
  the receivers; \<open>wsum\<close>; and what the cap block does to one pair of a boosted score and
  an allocation.\<close>

definition excess_of :: "real \<Rightarrow> real list \<Rightarrow> real" where
  "excess_of c xs = sum_list (map (\<lambda>a. if c < a then a - c else 0) xs)"

definition recv_score :: "real \<Rightarrow> (real \<times> real) list \<Rightarrow> real" where
  "recv_score c ba = sum_list (map (\<lambda>p. if snd p < c then fst p else 0) ba)"

definition recv_count :: "real \<Rightarrow> (real \<times> real) list \<Rightarrow> nat" where
  "recv_count c ba = length (filter (\<lambda>p. snd p < c) ba)"

definition wsum_of :: "real \<Rightarrow> (real \<times> real) list \<Rightarrow> real" where
  "wsum_of c ba = (if recv_score c ba = 0 then real (recv_count c ba) else recv_score c ba)"

definition cap_fn :: "real \<Rightarrow> real \<Rightarrow> real \<Rightarrow> real \<Rightarrow> real \<times> real \<Rightarrow> real" where
  "cap_fn c e ws n p =
     (if c < snd p then c
      else if 0 < e \<and> snd p < c then snd p + (if ws \<noteq> 0 then fst p / ws else 1 / n) * e
      else snd p)"

text \<open>The amount that the zero-score branch gives to every region before the final
  renormalisation.\<close>

definition even_amount :: "real \<Rightarrow> real \<Rightarrow> nat \<Rightarrow> real" where
  "even_amount budget m n =
     max 0 m + max 0 (max 0 ((budget - max 0 m * real n) / real n))"

subsection \<open>Closed forms of scoreAndAllocate\<close>

text \<open>The factor by which \<open>item_of\<close> multiplies the weighted sum.\<close>

definition uplift_factor :: "Options \<Rightarrow> MCDAInput \<Rightarrow> real" where
  "uplift_factor opt r =
     1 + max 0 (nullish (Options.ruralUplift opt) 0) * max 0 (min 1 (nullish (ruralIndex r) 0))"

text \<open>The score that \<open>items_of\<close> gives to a row of a list of rows.\<close>

definition score_in :: "MCDAInput list \<Rightarrow> Weights \<Rightarrow> Options \<Rightarrow> MCDAInput \<Rightarrow> real" where
  "score_in rows w opt q =
     weighted_sum w (rng (map growth65 rows)) (rng (map oadr rows))
       (rng (map dwellingsPer1k65 rows)) (rng (map medianIncome rows))
       (rng (map grantsPer65 rows)) q
     * uplift_factor opt q"

definition nonneg_weights :: "Weights \<Rightarrow> bool" where
  "nonneg_weights w =
     (0 \<le> wGrowth w \<and> 0 \<le> wOadr w \<and> 0 \<le> wHousingInv w \<and> 0 \<le> wIncomeInv w
      \<and> 0 \<le> wGrantsInv w)"

text \<open>The euro amount of a share when the cap is 1: the plain product when neither
  floor nor cap is set, and the product raised to the floor and clipped to the budget in
  the cap/floor branch, where nothing is left to top up.\<close>

definition eur_nocap :: "Options \<Rightarrow> real \<Rightarrow> real" where
  "eur_nocap opt s =
     (if truthy (floorEUR opt) \<or> truthy (capShare opt)
      then min (max (s * budgetEUR opt) (max 0 (nullish (floorEUR opt) 0))) (budgetEUR opt)
      else s * budgetEUR opt)"

text \<open>The entry of \<open>allocs\<close> for a row of a list of rows, in that case.\<close>

definition alloc_in :: "MCDAInput list \<Rightarrow> Weights \<Rightarrow> Options \<Rightarrow> MCDAInput \<Rightarrow> Alloc" where
  "alloc_in rows w opt q =
     \<lparr>la = la q, score = score_in rows w opt q,
      share = score_in rows w opt q / or_one (sum_list (map (score_in rows w opt) rows)),
      eur = eur_nocap opt
              (score_in rows w opt q / or_one (sum_list (map (score_in rows w opt) rows)))\<rparr>"




subsection \<open>Sample inputs\<close>

text \<open>Three regions with a single informative indicator, growth \<open>[10, 20, 30]\<close>.\<close>

definition row3 :: "string \<Rightarrow> real \<Rightarrow> MCDAInput" where
  "row3 k g = \<lparr>la = k, growth65 = g, oadr = 1, dwellingsPer1k65 = 1, medianIncome = 1,
               grantsPer65 = 1, ruralIndex = None\<rparr>"

definition rows3 :: "MCDAInput list" where
  "rows3 = [row3 ''A'' 10, row3 ''B'' 20, row3 ''C'' 30]"

definition growth_only :: Weights where
  "growth_only = \<lparr>wGrowth = 1, wOadr = 0, wHousingInv = 0, wIncomeInv = 0, wGrantsInv = 0\<rparr>"

definition plain_opts :: "real \<Rightarrow> real \<Rightarrow> Opts" where
  "plain_opts cap fl = \<lparr>maxShare = cap, minEuro = fl, ruralUplift = 0, ruralSet = None\<rparr>"

definition lib_opts :: "real option \<Rightarrow> real option \<Rightarrow> real option \<Rightarrow> real \<Rightarrow> Options" where
  "lib_opts u fl cap b = \<lparr>Options.ruralUplift = u, floorEUR = fl, capShare = cap, budgetEUR = b\<rparr>"

text \<open>Rows with two informative indicators, growth and old-age dependency ratio.\<close>

definition row2 :: "string \<Rightarrow> real \<Rightarrow> real \<Rightarrow> real option \<Rightarrow> MCDAInput" where
  "row2 k g od ri = \<lparr>la = k, growth65 = g, oadr = od, dwellingsPer1k65 = 1, medianIncome = 1,
                     grantsPer65 = 1, ruralIndex = ri\<rparr>"

text \<open>Two fully rural regions.\<close>

definition rural2 :: "MCDAInput list" where
  "rural2 = [row2 ''A'' 10 1 (Some 1), row2 ''B'' 30 1 (Some 1)]"

definition benefit_only :: Weights where
  "benefit_only = \<lparr>wGrowth = 1, wOadr = 1, wHousingInv = 0, wIncomeInv = 0, wGrantsInv = 0\<rparr>"


definition growth_against_oadr :: Weights where
  "growth_against_oadr =
     \<lparr>wGrowth = 2, wOadr = - 1, wHousingInv = 0, wIncomeInv = 0, wGrantsInv = 0\<rparr>"

section \<open>Evaluation and basic facts\<close>

lemmas allocateBudget_defs =
  allocateBudget_def alloc_raw_def floor_block_def cap_block_def boosted_of_def donors_pay_def
  receivers_get_def or_one_def plain_opts_def Let_def

lemmas scoreAndAllocate_defs =
  scoreAndAllocate_def allocs_of_def shares_of_def items_of_def item_of_def rng_def mm_def
  mmInv_def Number_isFinite_def or_one_def truthy_def nullish_def Math_round_def Let_def

lemmas sample_defs =
  rows3_def row3_def rural2_def row2_def growth_only_def benefit_only_def lib_opts_def

lemma foldl_plus_sum_list: "foldl (\<lambda>s a. s + f a) s0 xs = s0 + sum_list (map f xs)"
  for s0 :: real
  by (induction xs arbitrary: s0) (simp_all add: algebra_simps)

lemma foldl_add_sum_list: "foldl (+) s0 xs = s0 + sum_list xs"
  for s0 :: real
  using foldl_plus_sum_list [of "\<lambda>a. a" s0 xs] by simp

lemma fold_min_Min: "fold min xs x = Min (set (x # xs))"
  for x :: real
  by (simp only: Min.set_eq_fold)

lemma fold_max_Max: "fold max xs x = Max (set (x # xs))"
  for x :: real
  by (simp only: Max.set_eq_fold)

section \<open>Degenerate normalisation\<close>

text \<open>
  Claim C5. When the finite raw values of an indicator have their maximum equal to their
  minimum, \<open>mm\<close> (benefit) and \<open>mmInv\<close> (cost) give \<open>0.5\<close> to every region, whatever
  the region's own value \<open>x\<close> is.
\<close>

theorem degenerate_normalization:
  assumes "filter Number_isFinite vals \<noteq> []"
    and "Max (set (filter Number_isFinite vals)) = Min (set (filter Number_isFinite vals))"
  shows "mm x (rng vals) = 1 / 2 \<and> mmInv x (rng vals) = 1 / 2"
proof -
  from assms(1) obtain y ys where ys: "filter Number_isFinite vals = y # ys"
    by (cases "filter Number_isFinite vals") auto
  have "max_r (rng vals) = Max (set (y # ys))" "min_r (rng vals) = Min (set (y # ys))"
    by (simp_all add: rng_def ys fold_min_Min fold_max_Max del: set_simps)
  with assms(2) ys have "max_r (rng vals) = min_r (rng vals)" by simp
  then show ?thesis by (simp add: mm_def mmInv_def)
qed

theorem degenerate_normalization_witness:
  "filter Number_isFinite [7, 7, 7] \<noteq> [] \<and>
   Max (set (filter Number_isFinite [7, 7, 7])) = Min (set (filter Number_isFinite [7, 7, 7]))
   \<and> mm 3 (rng [7, 7, 7]) = 1 / 2 \<and> mmInv 3 (rng [7, 7, 7]) = 1 / 2"
  using degenerate_normalization [of "[7, 7, 7]" 3] by (simp add: Number_isFinite_def)

section \<open>scoreAndAllocate always returns\<close>

lemma topUps_total:
  "set (map la as) \<subseteq> set (map la rooms) \<Longrightarrow>
   \<exists>res. topUps rooms roomTotal rem as = Inr res \<and> map la res = map la as"
proof (induction as)
  case Nil
  then show ?case by simp
next
  case (Cons a as)
  then obtain res where r: "topUps rooms roomTotal rem as = Inr res" "map la res = map la as"
    by auto
  from Cons.prems have "la a \<in> la ` set rooms" by simp
  then obtain r where "r \<in> set rooms" "la r = la a" by auto
  then have "find (\<lambda>x. la x = la a) rooms \<noteq> None" by (auto simp: find_None_iff)
  then obtain r' where "find (\<lambda>x. la x = la a) rooms = Some r'" by auto
  with r show ?case by simp
qed

lemma allocs_of_total: "\<exists>allocs. allocs_of rows w opt = Inr allocs \<and> map la allocs = map la rows"
proof (cases "truthy (floorEUR opt) \<or> truthy (capShare opt)")
  case False
  then show ?thesis
    by (simp add: allocs_of_def shares_of_def items_of_def item_of_def Let_def comp_def)
next
  case True
  define allocs1 where "allocs1 = map (\<lambda>a. \<lparr>la = la a, score = score a, share = share a,
       eur = min (max (share a * budgetEUR opt) (max 0 (nullish (floorEUR opt) 0)))
              (max 0 (min 1 (nullish (capShare opt) 1)) * budgetEUR opt)\<rparr>)
       (shares_of (items_of rows w opt))"
  define rooms where "rooms = map (\<lambda>a. \<lparr>la = la a,
       room = max 0 (min 1 (nullish (capShare opt) 1)) * budgetEUR opt - eur a\<rparr>) allocs1"
  have la1: "map la allocs1 = map la rows"
    by (simp add: allocs1_def shares_of_def items_of_def item_of_def Let_def comp_def)
  have "map la rooms = map la allocs1" by (simp add: rooms_def comp_def)
  then have "set (map la allocs1) \<subseteq> set (map la rooms)" by simp
  from topUps_total [OF this] la1
  have "\<exists>res. topUps rooms (or_one (foldl (\<lambda>s r. s + max 0 (room r)) 0 rooms))
           (max 0 (budgetEUR opt - foldl (\<lambda>s a. s + eur a) 0 allocs1)) allocs1 = Inr res
         \<and> map la res = map la rows"
    by metis
  then show ?thesis using True
    by (simp add: allocs_of_def Let_def allocs1_def rooms_def)
qed

section \<open>Rounding\<close>



lemma Math_round_mono: "x \<le> y \<Longrightarrow> Math_round x \<le> Math_round y"
  unfolding Math_round_def by (simp add: floor_mono)




section \<open>The blocks of allocateBudget\<close>

lemma floor_pass_eq:
  "floor_pass m xs = (sum_list (map (\<lambda>a. if a < m then m - a else 0) xs),
                      map (\<lambda>a. if a < m then m else a) xs)"
  by (induction xs) (simp_all add: Let_def)

lemma cap_pass_eq:
  "cap_pass c xs = (sum_list (map (\<lambda>a. if a > c then a - c else 0) xs),
                    map (\<lambda>a. if a > c then c else a) xs)"
  by (induction xs) (simp_all add: Let_def)

lemma zip_map_same: "zip (map f xs) (map g xs) = map (\<lambda>x. (f x, g x)) xs"
  by (induction xs) simp_all

lemma sum_filter_if: "sum_list (map f (filter P xs)) = sum_list (map (\<lambda>a. if P a then f a else 0) xs)"
  for f :: "'a \<Rightarrow> real"
  by (induction xs) simp_all

lemma floor_block_map: "floor_block m xs = map (floor_fn m (deficit_of m xs) (pool_of m xs)) xs"
proof -
  let ?a1 = "map (\<lambda>a. if a < m then m else a) xs"
  have f: "filter (\<lambda>a. m < a) ?a1 = filter (\<lambda>a. m < a) xs"
    by (induction xs) simp_all
  have p: "foldl (\<lambda>s a. s + (a - m)) 0 (filter (\<lambda>a. m < a) ?a1) = pool_of m xs"
    unfolding f by (simp add: foldl_plus_sum_list pool_of_def sum_filter_if)
  show ?thesis
    unfolding floor_block_def floor_pass_eq donors_pay_def Let_def prod.case p
    by (auto simp: deficit_of_def floor_fn_def)
qed

lemma deficit_nonneg: "0 \<le> deficit_of m xs"
  unfolding deficit_of_def by (rule sum_list_nonneg) auto

lemma pool_nonneg: "0 \<le> pool_of m xs"
  unfolding pool_of_def by (rule sum_list_nonneg) auto


lemma sum_floor_block:
  "sum_list (floor_block m xs)
     = sum_list xs + (if 0 < deficit_of m xs \<and> pool_of m xs = 0 then deficit_of m xs else 0)"
proof -
  let ?d = "deficit_of m xs" and ?p = "pool_of m xs"
  have pt: "floor_fn m d p a = a + (if a < m then m - a else 0)
      - (if m < a then a - m else 0) * (if 0 < d then d / or_one p else 0)" for d p a
    by (simp add: floor_fn_def)
  have gen: "sum_list (map (floor_fn m d p) ys)
      = sum_list ys + deficit_of m ys - pool_of m ys * (if 0 < d then d / or_one p else 0)" for d p ys
    unfolding pt deficit_of_def pool_of_def
    by (simp only: sum_list_subtractf sum_list_addf sum_list_mult_const) simp
  show ?thesis
    unfolding floor_block_map gen using deficit_nonneg [of m xs] by (auto simp: or_one_def)
qed

lemma sum_floor_block_ge: "sum_list xs \<le> sum_list (floor_block m xs)"
  unfolding sum_floor_block using deficit_nonneg [of m xs] by simp



lemma excess_nonneg: "0 \<le> excess_of c xs"
  unfolding excess_of_def by (rule sum_list_nonneg) auto

lemma cap_block_map:
  assumes "length bs = length xs"
  shows "cap_block c bs xs
    = map (cap_fn c (excess_of c xs) (wsum_of c (zip bs xs)) (real (recv_count c (zip bs xs)))) (zip bs xs)"
proof -
  let ?clip = "\<lambda>a. if c < a then c else a"
  have z: "zip bs (map ?clip xs) = map (\<lambda>p. (fst p, ?clip (snd p))) (zip bs xs)"
    by (simp add: zip_map2 case_prod_unfold)
  have f: "filter (\<lambda>p. snd p < c) (map (\<lambda>p. (fst p, ?clip (snd p))) zs) = filter (\<lambda>p. snd p < c) zs"
    for zs :: "(real \<times> real) list"
    by (induction zs) (auto split: if_splits)
  have s: "foldl (\<lambda>s p. s + fst p) 0 (filter (\<lambda>p. snd p < c) zs) = recv_score c zs"
    for zs :: "(real \<times> real) list"
    by (simp add: foldl_plus_sum_list recv_score_def sum_filter_if)
  have "cap_block c bs xs = receivers_get c (excess_of c xs) (zip bs (map ?clip xs))"
    by (simp add: cap_block_def cap_pass_eq excess_of_def)
  also have "\<dots> = map (cap_fn c (excess_of c xs) (wsum_of c (zip bs xs))
                      (real (recv_count c (zip bs xs)))) (zip bs xs)"
    unfolding receivers_get_def Let_def case_prod_unfold z f s
    by (auto simp: cap_fn_def wsum_of_def recv_count_def)
  finally show ?thesis .
qed

lemma sum_cap_block:
  assumes "length bs = length xs"
  shows "sum_list (cap_block c bs xs)
    = sum_list xs - (if 0 < excess_of c xs \<and> recv_score c (zip bs xs) \<noteq> 0 then 0 else excess_of c xs)"
proof -
  define zs where "zs = zip bs xs"
  let ?e = "excess_of c xs" and ?s = "recv_score c zs" and ?ws = "wsum_of c zs"
  let ?n = "real (recv_count c zs)"
  have xs: "xs = map snd zs" using assms by (simp add: zs_def)
  have ez: "?e = sum_list (map (\<lambda>p. if c < snd p then snd p - c else 0) zs)"
    unfolding excess_of_def xs by (simp add: comp_def)
  have cb: "cap_block c bs xs = map (cap_fn c ?e ?ws ?n) zs"
    unfolding zs_def by (rule cap_block_map [OF assms])
  have "sum_list (map (cap_fn c ?e ?ws ?n) zs)
      = sum_list (map snd zs) - (if 0 < ?e \<and> ?s \<noteq> 0 then 0 else ?e)"
  proof (cases "?ws = 0")
    case True
    then have s0: "?s = 0" and "recv_count c zs = 0" by (auto simp: wsum_of_def split: if_splits)
    then have "filter (\<lambda>p. snd p < c) zs = []" by (simp add: recv_count_def)
    then have nr: "\<forall>p\<in>set zs. \<not> snd p < c" by (auto simp: filter_empty_conv)
    have h: "map (cap_fn c ?e ?ws ?n) zs = map (\<lambda>p. snd p - (if c < snd p then snd p - c else 0)) zs"
      using nr by (intro map_cong) (auto simp: cap_fn_def)
    have "sum_list (map (cap_fn c ?e ?ws ?n) zs) = sum_list (map snd zs) - ?e"
      by (simp only: h sum_list_subtractf ez [symmetric])
    then show ?thesis using s0 by simp
  next
    case False
    have pt: "cap_fn c ?e ?ws ?n p = snd p - (if c < snd p then snd p - c else 0)
        + (if snd p < c then fst p else 0) * (if 0 < ?e then ?e / ?ws else 0)" for p
      using False by (simp add: cap_fn_def)
    have "sum_list (map (cap_fn c ?e ?ws ?n) zs)
        = sum_list (map snd zs) - ?e + ?s * (if 0 < ?e then ?e / ?ws else 0)"
      unfolding pt
      by (simp only: sum_list_subtractf sum_list_addf sum_list_mult_const ez [symmetric] recv_score_def)
    then show ?thesis
      using False excess_nonneg [of c xs] by (auto simp: wsum_of_def split: if_splits)
  qed
  moreover have "sum_list (map snd zs) = sum_list xs" using xs by simp
  ultimately show ?thesis unfolding cb by (simp add: zs_def)
qed


lemma sum_list_const_map: "sum_list (map (\<lambda>x. c) xs) = real (length xs) * c"
  for c :: real
  by (induction xs) (simp_all add: algebra_simps)

lemma member_le_sum_list_real:
  "\<forall>x\<in>set xs. 0 \<le> x \<Longrightarrow> y \<in> set xs \<Longrightarrow> y \<le> sum_list xs"
  for y :: real
proof (induction xs)
  case Nil
  then show ?case by simp
next
  case (Cons x xs)
  then have "0 \<le> sum_list xs" by (simp add: sum_list_nonneg)
  with Cons show ?case by auto
qed

lemma boosted_nonneg: "- 1 \<le> ruralUplift opts \<Longrightarrow> 0 \<le> boosted_of opts e"
  by (simp add: boosted_of_def Let_def)

lemma sum_proportional:
  fixes budget :: real
  assumes "sum_list bs \<noteq> 0"
  shows "sum_list (map (\<lambda>b. b / sum_list bs * budget) bs) = budget"
proof -
  have "(\<lambda>b. b / sum_list bs * budget) = (\<lambda>b. b * (budget / sum_list bs))"
    by (rule ext) simp
  then have "sum_list (map (\<lambda>b. b / sum_list bs * budget) bs)
      = sum_list (map (\<lambda>b. b * (budget / sum_list bs)) bs)"
    by (simp only:)
  also have "\<dots> = sum_list bs * (budget / sum_list bs)"
    by (simp only: sum_list_mult_const) simp
  finally show ?thesis using assms by simp
qed

lemma alloc_raw_zero:
  assumes "sum_list (map (boosted_of opts) scores) \<le> 0"
  shows "alloc_raw scores budget opts
         = map (\<lambda>e. even_amount budget (minEuro opts) (length scores)) scores"
  using assms by (simp add: alloc_raw_def Let_def foldl_add_sum_list even_amount_def comp_def)

lemma alloc_raw_pos:
  assumes "0 < sum_list (map (boosted_of opts) scores)"
  shows "alloc_raw scores budget opts
         = cap_block (budget * max 0 (min 1 (or_one (maxShare opts))))
             (map (boosted_of opts) scores)
             (floor_block (minEuro opts)
                (map (\<lambda>b. b / sum_list (map (boosted_of opts) scores) * budget)
                   (map (boosted_of opts) scores)))"
  using assms by (simp add: alloc_raw_def Let_def foldl_add_sum_list)

lemma even_amount_pos: "0 < budget \<Longrightarrow> 0 < n \<Longrightarrow> 0 < even_amount budget m n"
proof (cases "0 < m")
  case True
  then show ?thesis unfolding even_amount_def by (simp add: add_pos_nonneg)
next
  case False
  assume "0 < budget" "0 < n"
  then have "0 < budget / real n" by simp
  with False show ?thesis unfolding even_amount_def by simp
qed

lemma floor_fn_zero_nonneg:
  assumes "\<forall>a\<in>set xs. 0 \<le> a"
  shows "0 \<le> floor_fn m (deficit_of m xs) (pool_of m xs) 0"
proof (cases "0 < m")
  case True
  then show ?thesis by (simp add: floor_fn_def)
next
  case False
  with assms have "\<forall>a\<in>set xs. \<not> a < m" by auto
  then have "map (\<lambda>a. if a < m then m - a else 0) xs = map (\<lambda>a. 0) xs"
    by (intro map_cong) auto
  then have "deficit_of m xs = 0" by (simp only: deficit_of_def sum_list_const_map)
  with False show ?thesis by (simp add: floor_fn_def)
qed

lemma cap_pos: "0 < budget \<Longrightarrow> 0 \<le> s \<Longrightarrow> 0 < budget * max 0 (min 1 (or_one s))"
  by (simp add: or_one_def)

lemma alloc_raw_sum_pos:
  assumes "scores \<noteq> []" and "0 < budget" and "0 \<le> maxShare opts" and "- 1 \<le> ruralUplift opts"
  shows "0 < sum_list (alloc_raw scores budget opts)"
proof (cases "sum_list (map (boosted_of opts) scores) \<le> 0")
  case True
  have "0 < real (length scores) * even_amount budget (minEuro opts) (length scores)"
    using assms(1,2) by (simp add: even_amount_pos)
  then show ?thesis unfolding alloc_raw_zero [OF True] sum_list_const_map .
next
  case False
  define bs where "bs = map (boosted_of opts) scores"
  define T where "T = sum_list bs"
  define m where "m = minEuro opts"
  define c where "c = budget * max 0 (min 1 (or_one (maxShare opts)))"
  define a0 where "a0 = map (\<lambda>b. b / T * budget) bs"
  define g where "g = (\<lambda>b. floor_fn m (deficit_of m a0) (pool_of m a0) (b / T * budget))"
  define a2 where "a2 = floor_block m a0"
  define zs where "zs = zip bs a2"
  define e where "e = excess_of c a2"
  from False have T: "0 < T" by (simp add: T_def bs_def)
  have c: "0 < c" unfolding c_def using assms(2,3) by (rule cap_pos)
  have bs0: "\<forall>b\<in>set bs. 0 \<le> b" using assms(4) by (auto simp: bs_def boosted_nonneg)
  have a00: "\<forall>a\<in>set a0. 0 \<le> a" using bs0 T assms(2) by (auto simp: a0_def)
  have a2g: "a2 = map g bs" by (simp add: a2_def floor_block_map a0_def g_def comp_def)
  have len: "length bs = length a2" by (simp add: a2g)
  have zsg: "zs = map (\<lambda>b. (b, g b)) bs"
    unfolding zs_def a2g using zip_map_same [of "\<lambda>b. b" bs g] by simp
  have raw: "alloc_raw scores budget opts = cap_block c bs a2"
    using False by (simp add: alloc_raw_pos bs_def T_def m_def c_def a0_def a2_def)
  have s2: "budget \<le> sum_list a2"
    using sum_floor_block_ge [of a0 m] sum_proportional [of bs budget] T
    by (simp add: a2_def a0_def T_def)
  have sum: "sum_list (cap_block c bs a2)
      = sum_list a2 - (if 0 < e \<and> recv_score c zs \<noteq> 0 then 0 else e)"
    unfolding e_def zs_def by (rule sum_cap_block [OF len])
  show ?thesis
  proof (cases "0 < e \<and> recv_score c zs = 0")
    case False
    then have "e = 0 \<or> (0 < e \<and> recv_score c zs \<noteq> 0)"
      using excess_nonneg [of c a2] by (auto simp: e_def)
    then have "sum_list (cap_block c bs a2) = sum_list a2" unfolding sum by auto
    then show ?thesis using s2 assms(2) raw by simp
  next
    case True
    let ?f = "cap_fn c e (wsum_of c zs) (real (recv_count c zs))"
    have cb: "cap_block c bs a2 = map ?f zs"
      unfolding e_def zs_def by (rule cap_block_map [OF len])
    have rs: "\<forall>p\<in>set zs. (if snd p < c then fst p else 0) = 0"
    proof -
      have "\<forall>x\<in>set (map (\<lambda>p. if snd p < c then fst p else 0) zs). 0 \<le> x"
        using bs0 by (auto simp: zsg)
      moreover have "sum_list (map (\<lambda>p. if snd p < c then fst p else 0) zs) = 0"
        using True by (simp add: recv_score_def)
      ultimately have "\<forall>x\<in>set (map (\<lambda>p. if snd p < c then fst p else 0) zs). x = 0"
        using sum_list_nonneg_eq_0_iff by blast
      then show ?thesis by simp
    qed
    have nonneg: "0 \<le> ?f p" if "p \<in> set zs" for p
    proof (cases "snd p < c")
      case False
      then show ?thesis using c by (auto simp: cap_fn_def)
    next
      case r: True
      with rs that have b0: "fst p = 0" by auto
      from that obtain b where "p = (b, g b)" by (auto simp: zsg)
      with b0 have gp: "snd p = g 0" by simp
      have "0 \<le> g 0" unfolding g_def using floor_fn_zero_nonneg [OF a00, of m] by simp
      moreover have "recv_count c zs \<noteq> 0"
        using that r by (auto simp: recv_count_def filter_empty_conv)
      then have "wsum_of c zs \<noteq> 0" using True by (simp add: wsum_of_def)
      ultimately show ?thesis using r b0 gp by (simp add: cap_fn_def)
    qed
    have "\<exists>a\<in>set a2. c < a"
    proof (rule ccontr)
      assume "\<not> (\<exists>a\<in>set a2. c < a)"
      then have "map (\<lambda>a. if c < a then a - c else 0) a2 = map (\<lambda>a. 0) a2"
        by (intro map_cong) auto
      then have "e = 0" by (simp only: e_def excess_of_def sum_list_const_map)
      with True show False by simp
    qed
    then obtain b where "b \<in> set bs" "c < g b" by (auto simp: a2g)
    then have "(b, g b) \<in> set zs \<and> c < snd (b, g b)" by (auto simp: zsg)
    then obtain p where p: "p \<in> set zs" "c < snd p" by blast
    then have "?f p = c" by (simp add: cap_fn_def)
    with p(1) have "c \<in> set (map ?f zs)" by force
    moreover have "\<forall>x\<in>set (map ?f zs). 0 \<le> x" using nonneg by auto
    ultimately have "c \<le> sum_list (map ?f zs)" by (rule member_le_sum_list_real [rotated])
    then show ?thesis using c raw cb by simp
  qed
qed

lemma allocateBudget_snd:
  "map snd (allocateBudget scores budget opts)
   = map (\<lambda>v. v * (budget / or_one (sum_list (alloc_raw scores budget opts))))
       (alloc_raw scores budget opts)"
proof -
  have "length (alloc_raw scores budget opts) = length scores"
    by (cases "sum_list (map (boosted_of opts) scores) \<le> 0")
       (simp_all add: alloc_raw_zero alloc_raw_pos cap_block_map floor_block_map)
  then show ?thesis by (simp add: allocateBudget_def Let_def foldl_add_sum_list)
qed


lemma allocateBudget_names: "map fst (allocateBudget scores budget opts) = map fst scores"
proof -
  have "length (alloc_raw scores budget opts) = length scores"
    by (cases "sum_list (map (boosted_of opts) scores) \<le> 0")
       (simp_all add: alloc_raw_zero alloc_raw_pos cap_block_map floor_block_map)
  then show ?thesis by (simp add: allocateBudget_def Let_def)
qed




section \<open>The cap\<close>

text \<open>
  Claim C3 at the failing input: scores \<open>[8, 2, 0]\<close>, budget 100 and \<open>maxShare = 0.4\<close>,
  a feasible cap of 40 euros per region. The first region is clipped to the cap and its
  excess of 40 goes to the second region alone, which ends at 60.
\<close>

theorem allocateBudget_exceeds_cap:
  "allocateBudget [(''A'', 8), (''B'', 2), (''C'', 0)] 100 (plain_opts (2 / 5) 0)
   = [(''A'', 40), (''B'', 60), (''C'', 0)]"
  by (simp add: allocateBudget_defs)

section \<open>The all-zero fallback\<close>

text \<open>
  Claim C7 gives \<open>max(floor, (budget - floor * N) / N)\<close> to each region when the scores
  sum to zero. With two regions, budget 100 and floor 10 this is 40; \<open>allocateBudget\<close>
  returns 50 for each.
\<close>

theorem zero_score_not_max:
  "map snd (allocateBudget [(''A'', 0), (''B'', 0)] 100 (plain_opts 1 10))
   \<noteq> [spec_equal_split 100 10 2, spec_equal_split 100 10 2]"
  by (simp add: allocateBudget_defs spec_equal_split_def)

text \<open>
  Claim C7 as amended. When the boosted scores sum to \<open>\<le> 0\<close>, with a positive budget and
  at least one region, the allocation before the renormalisation is the floor plus the
  even split of what the floors leave, \<open>max(0, floor) + max(0, (budget - max(0, floor) * N) / N)\<close>,
  for every region, and \<open>allocateBudget\<close> returns \<open>budget / N\<close> for every region. That is at
  least the floor whenever \<open>floor * N \<le> budget\<close>.
\<close>

theorem zero_score_fallback:
  assumes "sum_list (map (boosted_of opts) scores) \<le> 0" and "scores \<noteq> []" and "0 < budget"
  shows "alloc_raw scores budget opts
           = map (\<lambda>e. max 0 (minEuro opts)
                        + max 0 ((budget - max 0 (minEuro opts) * real (length scores))
                                 / real (length scores))) scores
         \<and> allocateBudget scores budget opts
           = map (\<lambda>e. (fst e, budget / real (length scores))) scores
         \<and> (minEuro opts * real (length scores) \<le> budget
              \<longrightarrow> (\<forall>e\<in>set (allocateBudget scores budget opts). minEuro opts \<le> snd e))"
proof -
  let ?n = "real (length scores)"
  define c where "c = even_amount budget (minEuro opts) (length scores)"
  from assms(2) have n: "0 < ?n" by simp
  have cpos: "0 < c" unfolding c_def using assms(2,3) by (simp add: even_amount_pos)
  have raw: "alloc_raw scores budget opts = map (\<lambda>e. c) scores"
    unfolding c_def by (rule alloc_raw_zero [OF assms(1)])
  have raw': "alloc_raw scores budget opts
           = map (\<lambda>e. max 0 (minEuro opts)
                        + max 0 ((budget - max 0 (minEuro opts) * real (length scores))
                                 / real (length scores))) scores"
    unfolding raw c_def even_amount_def by simp
  have k: "c * (budget / (?n * c)) = budget / ?n" using cpos by simp
  have "map snd (allocateBudget scores budget opts) = map (\<lambda>e. budget / ?n) scores"
    unfolding allocateBudget_snd raw sum_list_const_map
    using n cpos k by (simp add: or_one_def)
  moreover have "map fst (allocateBudget scores budget opts) = map fst scores"
    by (rule allocateBudget_names)
  ultimately have "zip (map fst scores) (map (\<lambda>e. budget / ?n) scores)
      = allocateBudget scores budget opts"
    by (metis zip_map_fst_snd)
  then have eq: "allocateBudget scores budget opts = map (\<lambda>e. (fst e, budget / ?n)) scores"
    by (simp add: zip_map_same)
  have "minEuro opts \<le> budget / ?n" if "minEuro opts * ?n \<le> budget"
    using that n by (simp add: field_simps)
  then show ?thesis using eq raw' by auto
qed

theorem zero_score_fallback_witness:
  "sum_list (map (boosted_of (plain_opts 1 10)) [(''A'', 0), (''B'', 0)]) \<le> 0
   \<and> [(''A'', 0 :: real), (''B'', 0)] \<noteq> [] \<and> (0 :: real) < 100
   \<and> minEuro (plain_opts 1 10) * real (length [(''A'', 0 :: real), (''B'', 0)]) \<le> 100
   \<and> allocateBudget [(''A'', 0), (''B'', 0)] 100 (plain_opts 1 10) = [(''A'', 50), (''B'', 50)]
   \<and> minEuro (plain_opts 1 10) \<le> 50"
  using zero_score_fallback [of "plain_opts 1 10" "[(''A'', 0), (''B'', 0)]" 100]
  by (simp add: plain_opts_def boosted_of_def)

section \<open>Rural uplift\<close>

text \<open>
  Claim C8 states that the uplift is clamped into \<open>[0, 0.25]\<close> before it is applied. With
  uplift 1 on two fully rural regions, \<open>scoreAndAllocate\<close> doubles the score of the
  second region (from 1 to 2), where the clamped uplift would give 1.25.
\<close>

theorem uplift_above_quarter_applied:
  "map score (items_of rural2 growth_only (lib_opts (Some 1) None None 100))
   \<noteq> spec_scores rural2 growth_only 1"
  by (simp add: scoreAndAllocate_defs sample_defs spec_scores_def spec_uplift_score_def
      weighted_sum_def)

text \<open>
  Claim C8 as amended. \<open>scoreAndAllocate\<close> computes the weighted sum of the normalised
  indicators and multiplies it by \<open>1 + u * ri\<close>, where \<open>u\<close> is the caller's uplift
  clamped from below at 0 only (an absent, zero or negative uplift leaves the score as
  it is, a value above 0.25 is applied as supplied) and \<open>ri\<close> is the rural index clamped
  into \<open>[0, 1]\<close>. \<open>allocateBudget\<close> multiplies the non-negative part of the score of
  every member of the rural set by \<open>1 + ruralUplift\<close>, with no clamp.
\<close>

theorem uplift_as_computed:
  "score (item_of w opt gR oR hR iR eR r)
     = weighted_sum w gR oR hR iR eR r
       * (1 + max 0 (nullish (Options.ruralUplift opt) 0) * max 0 (min 1 (nullish (ruralIndex r) 0)))
   \<and> boosted_of opts (n, s)
     = max 0 s * (1 + (case ruralSet opts of
                         None \<Rightarrow> 0
                       | Some rs \<Rightarrow> if n \<in> rs then ruralUplift opts else 0))"
  by (cases "Options.ruralUplift opt"; cases "ruralSet opts")
     (auto simp: item_of_def weighted_sum_def boosted_of_def nullish_def Let_def max_def)

section \<open>Normalisation when one value is raised\<close>

lemma rng_Min_Max:
  assumes "vs \<noteq> []"
  shows "min_r (rng vs) = Min (set vs)" and "max_r (rng vs) = Max (set vs)"
proof -
  from assms obtain y ys where "vs = y # ys" by (cases vs) auto
  then show "min_r (rng vs) = Min (set vs)" and "max_r (rng vs) = Max (set vs)"
    by (simp_all add: rng_def Number_isFinite_def fold_min_Min fold_max_Max del: set_simps)
qed

lemma mm_bounds:
  assumes "v \<in> set vs"
  shows "0 \<le> mm v (rng vs)" and "mm v (rng vs) \<le> 1"
    and "0 \<le> mmInv v (rng vs)" and "mmInv v (rng vs) \<le> 1"
proof -
  from assms have ne: "vs \<noteq> []" by auto
  have lo: "Min (set vs) \<le> v" and hi: "v \<le> Max (set vs)" using assms by simp_all
  show "0 \<le> mm v (rng vs)" "mm v (rng vs) \<le> 1" "0 \<le> mmInv v (rng vs)" "mmInv v (rng vs) \<le> 1"
    using lo hi by (simp_all add: mm_def mmInv_def rng_Min_Max [OF ne])
qed

lemma mm_half_exists:
  assumes "vs \<noteq> []"
  shows "\<exists>v\<in>set vs. 1 / 2 \<le> mm v (rng vs)"
proof -
  have "Max (set vs) \<in> set vs" using assms by (intro Max_in) simp_all
  moreover have "1 / 2 \<le> mm (Max (set vs)) (rng vs)"
    by (simp add: mm_def rng_Min_Max [OF assms])
  ultimately show ?thesis by blast
qed

lemma mm_shrink:
  fixes v :: real
  assumes "lo \<le> lo'" "lo' \<le> v" "v \<le> hi" "hi \<le> hi'" "lo < hi" "lo' < hi'"
  shows "(v - lo') / (hi' - lo') \<le> (v - lo) / (hi - lo)"
proof -
  have "0 \<le> (v - lo) * (hi' - hi) + (hi - v) * (lo' - lo)"
    using assms by (intro add_nonneg_nonneg mult_nonneg_nonneg) simp_all
  also have "\<dots> = (v - lo) * (hi' - lo') - (v - lo') * (hi - lo)"
    by (simp add: algebra_simps)
  finally have "(v - lo') * (hi - lo) \<le> (v - lo) * (hi' - lo')" by simp
  then show ?thesis using assms(5,6) by (simp add: field_simps)
qed

lemma mm_other_arith:
  fixes v :: real
  assumes "x \<le> x'" "L \<le> v" "v \<le> H"
  shows "mm v \<lparr>min_r = min x' L, max_r = max x' H\<rparr> \<le> mm v \<lparr>min_r = min x L, max_r = max x H\<rparr>"
proof -
  let ?lo = "min x L" and ?hi = "max x H" and ?lo' = "min x' L" and ?hi' = "max x' H"
  have o: "?lo \<le> ?lo'" "?lo' \<le> v" "v \<le> ?hi" "?hi \<le> ?hi'" using assms by auto
  consider (dd) "?hi' = ?lo'" | (nd) "?hi' \<noteq> ?lo'" "?hi = ?lo" | (nn) "?hi' \<noteq> ?lo'" "?hi \<noteq> ?lo"
    by blast
  then show ?thesis
  proof cases
    case dd
    then have e: "v = x'" "L = x'" "H = x'" using o assms by (auto simp: min_def max_def split: if_splits)
    show ?thesis
    proof (cases "x = x'")
      case True
      then show ?thesis using e by (simp add: mm_def)
    next
      case False
      then have "x < x'" using assms(1) by simp
      then show ?thesis using e by (simp add: mm_def)
    qed
  next
    case nd
    then have e: "v = x" "L = x" "H = x" using o assms by (auto simp: min_def max_def split: if_splits)
    then have "x < x'" using nd(1) assms(1) by (auto simp: min_def max_def split: if_splits)
    then show ?thesis using e by (simp add: mm_def)
  next
    case nn
    have "?lo \<le> ?hi" "?lo' \<le> ?hi'" using o by linarith+
    with nn have "?lo < ?hi" "?lo' < ?hi'" by linarith+
    from mm_shrink [OF o this] nn show ?thesis by (simp add: mm_def)
  qed
qed

lemma mm_self_arith:
  fixes x :: real
  assumes "x \<le> x'" "L \<le> H"
  shows "mm x \<lparr>min_r = min x L, max_r = max x H\<rparr> \<le> mm x' \<lparr>min_r = min x' L, max_r = max x' H\<rparr>"
proof -
  have "0 \<le> (H - L) * (x' - x)" using assms by simp
  then have a: "H * x + L * x' \<le> H * x' + L * x" by (simp add: algebra_simps)
  have "0 \<le> (H - x) * (x' - L)" if "x \<le> H" "L \<le> x'" using that by simp
  then have b: "H * L + x * x' \<le> H * x' + L * x" if "x \<le> H" "L \<le> x'"
    using that by (simp add: algebra_simps)
  show ?thesis
    using assms a b by (auto simp: mm_def min_def max_def field_simps split: if_splits)
qed

lemma Min_Max_split:
  fixes x :: real
  assumes "ps @ qs \<noteq> []"
  shows "Min (set (ps @ x # qs)) = min x (Min (set (ps @ qs)))"
    and "Max (set (ps @ x # qs)) = max x (Max (set (ps @ qs)))"
proof -
  have s: "set (ps @ x # qs) = insert x (set (ps @ qs))" by auto
  have ne: "set (ps @ qs) \<noteq> {}" using assms by simp
  show "Min (set (ps @ x # qs)) = min x (Min (set (ps @ qs)))"
    unfolding s using ne by (intro Min_insert) simp_all
  show "Max (set (ps @ x # qs)) = max x (Max (set (ps @ qs)))"
    unfolding s using ne by (intro Max_insert) simp_all
qed

lemma rng_split:
  assumes "ps @ qs \<noteq> []"
  shows "rng (ps @ x # qs)
         = \<lparr>min_r = min x (Min (set (ps @ qs))), max_r = max x (Max (set (ps @ qs)))\<rparr>"
proof -
  have "ps @ x # qs \<noteq> []" by simp
  from rng_Min_Max [OF this] Min_Max_split [OF assms, of x]
  show ?thesis by simp
qed

lemma mm_self_mono:
  assumes "x \<le> x'"
  shows "mm x (rng (ps @ x # qs)) \<le> mm x' (rng (ps @ x' # qs))"
proof (cases "ps @ qs = []")
  case True
  then show ?thesis by (simp add: rng_def mm_def Number_isFinite_def)
next
  case False
  obtain y where "y \<in> set (ps @ qs)" using False by (cases "ps @ qs") auto
  then have "Min (set (ps @ qs)) \<le> y" "y \<le> Max (set (ps @ qs))" by simp_all
  then have "Min (set (ps @ qs)) \<le> Max (set (ps @ qs))" by (rule order_trans)
  from mm_self_arith [OF assms this] show ?thesis by (simp only: rng_split [OF False])
qed

lemma mm_other_mono:
  assumes "x \<le> x'" and "v \<in> set (ps @ qs)"
  shows "mm v (rng (ps @ x' # qs)) \<le> mm v (rng (ps @ x # qs))"
proof -
  from assms(2) have ne: "ps @ qs \<noteq> []" by auto
  have "Min (set (ps @ qs)) \<le> v" "v \<le> Max (set (ps @ qs))" using assms(2) by simp_all
  from mm_other_arith [OF assms(1) this] show ?thesis by (simp only: rng_split [OF ne])
qed

section \<open>Scores and shares when one region's benefit indicators are raised\<close>

lemma item_of_score:
  "score (item_of w opt gR oR hR iR eR r) = weighted_sum w gR oR hR iR eR r * uplift_factor opt r"
  by (cases "Options.ruralUplift opt")
     (auto simp: item_of_def weighted_sum_def uplift_factor_def nullish_def Let_def max_def)

lemma item_of_la: "la (item_of w opt gR oR hR iR eR r) = la r"
  by (simp add: item_of_def Let_def)

lemma uplift_factor_ge1: "1 \<le> uplift_factor opt r"
  by (simp add: uplift_factor_def)

lemma items_of_map:
  "items_of rows w opt
   = map (\<lambda>q. \<lparr>la = la q, score = score_in rows w opt q\<rparr>) rows"
proof -
  have "item_of w opt gR oR hR iR eR q
      = \<lparr>la = la q, score = weighted_sum w gR oR hR iR eR q * uplift_factor opt q\<rparr>"
    for gR oR hR iR eR q
    using item_of_score [of w opt gR oR hR iR eR q] item_of_la [of w opt gR oR hR iR eR q]
    by (cases "item_of w opt gR oR hR iR eR q") simp
  then show ?thesis by (simp add: items_of_def Let_def score_in_def)
qed

lemma score_in_nonneg:
  assumes "nonneg_weights w" and "q \<in> set rows"
  shows "0 \<le> score_in rows w opt q"
proof -
  have "0 \<le> mm (growth65 q) (rng (map growth65 rows))"
    "0 \<le> mm (oadr q) (rng (map oadr rows))"
    "0 \<le> mmInv (dwellingsPer1k65 q) (rng (map dwellingsPer1k65 rows))"
    "0 \<le> mmInv (medianIncome q) (rng (map medianIncome rows))"
    "0 \<le> mmInv (grantsPer65 q) (rng (map grantsPer65 rows))"
    using assms(2) by (simp_all add: mm_bounds)
  then have "0 \<le> weighted_sum w (rng (map growth65 rows)) (rng (map oadr rows))
       (rng (map dwellingsPer1k65 rows)) (rng (map medianIncome rows))
       (rng (map grantsPer65 rows)) q"
    using assms(1) unfolding weighted_sum_def nonneg_weights_def
    by (intro add_nonneg_nonneg mult_nonneg_nonneg) simp_all
  moreover have "0 \<le> uplift_factor opt q" using uplift_factor_ge1 [of opt q] by simp
  ultimately show ?thesis unfolding score_in_def by (rule mult_nonneg_nonneg)
qed


lemma score_in_raise_self:
  assumes "nonneg_weights w" and "growth65 r \<le> g'" and "oadr r \<le> o'"
  shows "score_in (pre @ r # post) w opt r
         \<le> score_in (pre @ r\<lparr>growth65 := g', oadr := o'\<rparr> # post) w opt
              (r\<lparr>growth65 := g', oadr := o'\<rparr>)"
proof -
  let ?r' = "r\<lparr>growth65 := g', oadr := o'\<rparr>"
  have g: "mm (growth65 r) (rng (map growth65 (pre @ r # post)))
        \<le> mm g' (rng (map growth65 (pre @ ?r' # post)))"
    using mm_self_mono [OF assms(2), of "map growth65 pre" "map growth65 post"] by simp
  have o: "mm (oadr r) (rng (map oadr (pre @ r # post)))
        \<le> mm o' (rng (map oadr (pre @ ?r' # post)))"
    using mm_self_mono [OF assms(3), of "map oadr pre" "map oadr post"] by simp
  have "wGrowth w * mm (growth65 r) (rng (map growth65 (pre @ r # post)))
        \<le> wGrowth w * mm g' (rng (map growth65 (pre @ ?r' # post)))"
    using g assms(1) by (intro mult_left_mono) (simp_all add: nonneg_weights_def)
  moreover have "wOadr w * mm (oadr r) (rng (map oadr (pre @ r # post)))
        \<le> wOadr w * mm o' (rng (map oadr (pre @ ?r' # post)))"
    using o assms(1) by (intro mult_left_mono) (simp_all add: nonneg_weights_def)
  ultimately have "weighted_sum w (rng (map growth65 (pre @ r # post)))
        (rng (map oadr (pre @ r # post))) (rng (map dwellingsPer1k65 (pre @ r # post)))
        (rng (map medianIncome (pre @ r # post))) (rng (map grantsPer65 (pre @ r # post))) r
      \<le> weighted_sum w (rng (map growth65 (pre @ ?r' # post)))
        (rng (map oadr (pre @ ?r' # post))) (rng (map dwellingsPer1k65 (pre @ ?r' # post)))
        (rng (map medianIncome (pre @ ?r' # post))) (rng (map grantsPer65 (pre @ ?r' # post))) ?r'"
    by (simp add: weighted_sum_def)
  moreover have "uplift_factor opt ?r' = uplift_factor opt r" by (simp add: uplift_factor_def)
  moreover have "0 \<le> uplift_factor opt r" using uplift_factor_ge1 [of opt r] by simp
  ultimately show ?thesis unfolding score_in_def by (simp add: mult_right_mono)
qed

lemma score_in_raise_other:
  assumes "nonneg_weights w" and "growth65 r \<le> g'" and "oadr r \<le> o'"
    and "q \<in> set (pre @ post)"
  shows "score_in (pre @ r\<lparr>growth65 := g', oadr := o'\<rparr> # post) w opt q
         \<le> score_in (pre @ r # post) w opt q"
proof -
  let ?r' = "r\<lparr>growth65 := g', oadr := o'\<rparr>"
  have "growth65 q \<in> set (map growth65 pre @ map growth65 post)"
    and "oadr q \<in> set (map oadr pre @ map oadr post)"
    using assms(4) by auto
  then have g: "mm (growth65 q) (rng (map growth65 (pre @ ?r' # post)))
        \<le> mm (growth65 q) (rng (map growth65 (pre @ r # post)))"
    and o: "mm (oadr q) (rng (map oadr (pre @ ?r' # post)))
        \<le> mm (oadr q) (rng (map oadr (pre @ r # post)))"
    using mm_other_mono [OF assms(2), of "growth65 q" "map growth65 pre" "map growth65 post"]
      mm_other_mono [OF assms(3), of "oadr q" "map oadr pre" "map oadr post"]
    by simp_all
  have "wGrowth w * mm (growth65 q) (rng (map growth65 (pre @ ?r' # post)))
        \<le> wGrowth w * mm (growth65 q) (rng (map growth65 (pre @ r # post)))"
    using g assms(1) by (intro mult_left_mono) (simp_all add: nonneg_weights_def)
  moreover have "wOadr w * mm (oadr q) (rng (map oadr (pre @ ?r' # post)))
        \<le> wOadr w * mm (oadr q) (rng (map oadr (pre @ r # post)))"
    using o assms(1) by (intro mult_left_mono) (simp_all add: nonneg_weights_def)
  ultimately have "weighted_sum w (rng (map growth65 (pre @ ?r' # post)))
        (rng (map oadr (pre @ ?r' # post))) (rng (map dwellingsPer1k65 (pre @ ?r' # post)))
        (rng (map medianIncome (pre @ ?r' # post))) (rng (map grantsPer65 (pre @ ?r' # post))) q
      \<le> weighted_sum w (rng (map growth65 (pre @ r # post)))
        (rng (map oadr (pre @ r # post))) (rng (map dwellingsPer1k65 (pre @ r # post)))
        (rng (map medianIncome (pre @ r # post))) (rng (map grantsPer65 (pre @ r # post))) q"
    by (simp add: weighted_sum_def)
  moreover have "0 \<le> uplift_factor opt q" using uplift_factor_ge1 [of opt q] by simp
  ultimately show ?thesis unfolding score_in_def by (simp add: mult_right_mono)
qed

lemma score_total_pos:
  assumes "nonneg_weights w" and "rows \<noteq> []" and "0 < wGrowth w \<or> 0 < wOadr w"
  shows "0 < sum_list (map (score_in rows w opt) rows)"
proof -
  have nn: "\<forall>x\<in>set (map (score_in rows w opt) rows). 0 \<le> x"
    using score_in_nonneg [OF assms(1)] by auto
  have "\<exists>q\<in>set rows. 0 < score_in rows w opt q"
  proof -
    have pos: "0 < score_in rows w opt q"
      if q: "q \<in> set rows"
        and h: "0 < wGrowth w \<and> 1 / 2 \<le> mm (growth65 q) (rng (map growth65 rows))
              \<or> 0 < wOadr w \<and> 1 / 2 \<le> mm (oadr q) (rng (map oadr rows))" for q
    proof -
      have b: "0 \<le> mm (growth65 q) (rng (map growth65 rows))"
        "0 \<le> mm (oadr q) (rng (map oadr rows))"
        "0 \<le> mmInv (dwellingsPer1k65 q) (rng (map dwellingsPer1k65 rows))"
        "0 \<le> mmInv (medianIncome q) (rng (map medianIncome rows))"
        "0 \<le> mmInv (grantsPer65 q) (rng (map grantsPer65 rows))"
        using q by (simp_all add: mm_bounds)
      have t: "0 \<le> wGrowth w * mm (growth65 q) (rng (map growth65 rows))"
        "0 \<le> wOadr w * mm (oadr q) (rng (map oadr rows))"
        "0 \<le> wHousingInv w * mmInv (dwellingsPer1k65 q) (rng (map dwellingsPer1k65 rows))"
        "0 \<le> wIncomeInv w * mmInv (medianIncome q) (rng (map medianIncome rows))"
        "0 \<le> wGrantsInv w * mmInv (grantsPer65 q) (rng (map grantsPer65 rows))"
        using b assms(1) by (simp_all add: nonneg_weights_def)
      have "0 < wGrowth w * mm (growth65 q) (rng (map growth65 rows))
          \<or> 0 < wOadr w * mm (oadr q) (rng (map oadr rows))"
        using h by (auto intro!: mult_pos_pos)
      then have "0 < weighted_sum w (rng (map growth65 rows)) (rng (map oadr rows))
         (rng (map dwellingsPer1k65 rows)) (rng (map medianIncome rows))
         (rng (map grantsPer65 rows)) q"
        unfolding weighted_sum_def using t by linarith
      moreover have "0 < uplift_factor opt q" using uplift_factor_ge1 [of opt q] by simp
      ultimately show ?thesis unfolding score_in_def by (rule mult_pos_pos)
    qed
    from assms(3) show ?thesis
    proof
      assume wg: "0 < wGrowth w"
      from mm_half_exists [of "map growth65 rows"] assms(2)
      obtain q where "q \<in> set rows" "1 / 2 \<le> mm (growth65 q) (rng (map growth65 rows))"
        by auto
      with wg pos show ?thesis by blast
    next
      assume wo: "0 < wOadr w"
      from mm_half_exists [of "map oadr rows"] assms(2)
      obtain q where "q \<in> set rows" "1 / 2 \<le> mm (oadr q) (rng (map oadr rows))"
        by auto
      with wo pos show ?thesis by blast
    qed
  qed
  then obtain q where q: "q \<in> set rows" "0 < score_in rows w opt q" by blast
  then have "score_in rows w opt q \<in> set (map (score_in rows w opt) rows)" by simp
  from member_le_sum_list_real [OF nn this] q(2) show ?thesis by simp
qed

lemma share_mono:
  fixes s :: real
  assumes "0 \<le> s" "s \<le> s'" "0 \<le> R'" "R' \<le> R"
  shows "s / or_one (s + R) \<le> s' / or_one (s' + R')"
proof (cases "s = 0")
  case True
  have "0 \<le> s' / or_one (s' + R')" using assms by (simp add: or_one_def)
  with True show ?thesis by simp
next
  case False
  then have s: "0 < s" "0 < s'" using assms by simp_all
  then have p: "0 < s + R" "0 < s' + R'" using assms by simp_all
  have "s * R' \<le> s' * R" using assms by (intro mult_mono) simp_all
  then have "s * (s' + R') \<le> s' * (s + R)" by (simp add: algebra_simps)
  then have "s / (s + R) \<le> s' / (s' + R')" using p by (simp add: field_simps)
  then show ?thesis using p by (simp add: or_one_def)
qed

section \<open>scoreAndAllocate without a cap\<close>

lemma eur_nocap_mono:
  assumes "0 \<le> budgetEUR opt" and "s \<le> s'"
  shows "eur_nocap opt s \<le> eur_nocap opt s'"
proof -
  have "s * budgetEUR opt \<le> s' * budgetEUR opt" using assms by (rule mult_right_mono [rotated])
  then show ?thesis unfolding eur_nocap_def by auto
qed

lemma shares_of_map:
  "shares_of (items_of rows w opt)
   = map (\<lambda>q. \<lparr>la = la q, score = score_in rows w opt q,
                 share = score_in rows w opt q
                         / or_one (sum_list (map (score_in rows w opt) rows))\<rparr>) rows"
  by (simp add: shares_of_def items_of_map Let_def foldl_plus_sum_list comp_def)

lemma topUps_rem0:
  "set (map la as) \<subseteq> set (map la rooms) \<Longrightarrow> topUps rooms roomTotal 0 as = Inr as"
proof (induction as)
  case Nil
  then show ?case by simp
next
  case (Cons a as)
  from Cons.prems have "la a \<in> la ` set rooms" by simp
  then obtain r where "r \<in> set rooms" "la r = la a" by auto
  then have "find (\<lambda>x. la x = la a) rooms \<noteq> None" by (auto simp: find_None_iff)
  then obtain r' where "find (\<lambda>x. la x = la a) rooms = Some r'" by auto
  with Cons show ?case by simp
qed

lemma allocs_of_nocap:
  assumes "nonneg_weights w" and "0 \<le> budgetEUR opt" and "1 \<le> nullish (capShare opt) 1"
    and "0 < sum_list (map (score_in rows w opt) rows)"
  shows "allocs_of rows w opt = Inr (map (alloc_in rows w opt) rows)"
proof (cases "truthy (floorEUR opt) \<or> truthy (capShare opt)")
  case False
  then show ?thesis
    by (simp add: allocs_of_def Let_def shares_of_map alloc_in_def eur_nocap_def comp_def)
next
  case True
  let ?B = "budgetEUR opt"
  let ?T = "sum_list (map (score_in rows w opt) rows)"
  let ?sh = "\<lambda>q. score_in rows w opt q / or_one ?T"
  define allocs1 where "allocs1 = map (alloc_in rows w opt) rows"
  define rooms where "rooms = map (\<lambda>a. \<lparr>la = la a, room = ?B - eur a\<rparr>) allocs1"
  have cap: "max 0 (min 1 (nullish (capShare opt) 1)) = 1" using assms(3) by simp
  have oT: "or_one ?T = ?T" using assms(4) by (simp add: or_one_def)
  have a1: "map (\<lambda>a. \<lparr>la = la a, score = score a, share = share a,
                eur = min (max (share a * ?B) (max 0 (nullish (floorEUR opt) 0))) ?B\<rparr>)
              (shares_of (items_of rows w opt)) = allocs1"
    using True by (simp add: allocs1_def shares_of_map alloc_in_def eur_nocap_def comp_def)
  have sh1: "?sh q \<le> 1" if "q \<in> set rows" for q
  proof -
    have "\<forall>x\<in>set (map (score_in rows w opt) rows). 0 \<le> x"
      using score_in_nonneg [OF assms(1)] by auto
    moreover have "score_in rows w opt q \<in> set (map (score_in rows w opt) rows)" using that by simp
    ultimately have "score_in rows w opt q \<le> ?T" by (rule member_le_sum_list_real)
    then show ?thesis using assms(4) by (simp add: oT)
  qed
  have lower: "?sh q * ?B \<le> eur (alloc_in rows w opt q)" if "q \<in> set rows" for q
  proof -
    have "?sh q * ?B \<le> 1 * ?B" using sh1 [OF that] assms(2) by (rule mult_right_mono)
    then show ?thesis using True by (simp add: alloc_in_def eur_nocap_def)
  qed
  have "sum_list (map (\<lambda>q. ?sh q * ?B) rows) \<le> sum_list (map (\<lambda>q. eur (alloc_in rows w opt q)) rows)"
    using lower by (intro sum_list_mono) simp
  moreover have "sum_list (map (\<lambda>q. ?sh q * ?B) rows) = ?B"
  proof -
    have "sum_list (map (\<lambda>q. ?sh q * ?B) rows) = sum_list (map (\<lambda>q. score_in rows w opt q * (?B / ?T)) rows)"
      by (simp add: oT)
    also have "\<dots> = ?T * (?B / ?T)" by (simp only: sum_list_mult_const)
    finally show ?thesis using assms(4) by simp
  qed
  ultimately have spent: "?B \<le> sum_list (map eur allocs1)" by (simp add: allocs1_def comp_def)
  then have rem: "max 0 (?B - foldl (\<lambda>s a. s + eur a) 0 allocs1) = 0"
    by (simp add: foldl_plus_sum_list)
  have "map la rooms = map la allocs1" by (simp add: rooms_def comp_def)
  then have sub: "set (map la allocs1) \<subseteq> set (map la rooms)" by simp
  have "allocs_of rows w opt
      = topUps rooms (or_one (foldl (\<lambda>s r. s + max 0 (room r)) 0 rooms))
          (max 0 (?B - foldl (\<lambda>s a. s + eur a) 0 allocs1)) allocs1"
    using True by (simp add: allocs_of_def Let_def cap rooms_def a1 [symmetric] comp_def)
  also have "\<dots> = Inr allocs1" unfolding rem by (rule topUps_rem0 [OF sub])
  finally show ?thesis by (simp add: allocs1_def)
qed

lemma find_unique:
  assumes "distinct (map k xs)" and "set ys = set xs" and "a \<in> set xs"
  shows "find (\<lambda>x. k x = k a) ys = Some a"
proof -
  have "find (\<lambda>x. k x = k a) ys \<noteq> None" using assms(2,3) by (auto simp: find_None_iff)
  then obtain y where y: "find (\<lambda>x. k x = k a) ys = Some y" by auto
  then have "y \<in> set ys" "k y = k a" by (auto simp: find_Some_iff)
  moreover have "inj_on k (set xs)" using assms(1) by (simp add: distinct_map)
  ultimately have "y = a" using assms(2,3) by (auto dest: inj_onD)
  with y show ?thesis by simp
qed

lemma eur_of_allocs:
  assumes "allocs_of rows w opt = Inr (map f rows)" and "\<forall>q. la (f q) = la q"
    and "distinct (map la rows)" and "r \<in> set rows"
  shows "eur_of (la r) (scoreAndAllocate rows w opt) = Some (Math_round (eur (f r)))"
proof -
  let ?xs = "map (\<lambda>q. rounded (f q)) rows"
  let ?ys = "sort_key (\<lambda>a. - eur a) ?xs"
  have res: "scoreAndAllocate rows w opt = Inr ?ys"
    using assms(1) by (simp add: scoreAndAllocate_def rounded_def [abs_def] comp_def)
  have ml: "map la ?xs = map la rows" using assms(2) by (simp add: rounded_def comp_def)
  have d: "distinct (map la ?xs)" using assms(3) by (simp only: ml)
  have s: "set ?ys = set ?xs" by simp
  have m: "rounded (f r) \<in> set ?xs" using assms(4) by auto
  have "la (rounded (f r)) = la r" using assms(2) by (simp add: rounded_def)
  with find_unique [OF d s m] have "find (\<lambda>x. la x = la r) ?ys = Some (rounded (f r))" by simp
  then show ?thesis unfolding res eur_of_def by (simp add: rounded_def)
qed

lemma eur_of_exists:
  assumes "r \<in> set rows"
  shows "\<exists>e. eur_of (la r) (scoreAndAllocate rows w opt) = Some e"
proof -
  obtain allocs where a: "allocs_of rows w opt = Inr allocs" "map la allocs = map la rows"
    using allocs_of_total by blast
  let ?ys = "sort_key (\<lambda>a. - eur a) (map rounded allocs)"
  have res: "scoreAndAllocate rows w opt = Inr ?ys"
    using a(1) by (simp add: scoreAndAllocate_def rounded_def [abs_def])
  have "la r \<in> set (map la allocs)" using assms a(2) by simp
  then obtain x where "x \<in> set allocs" "la x = la r" by auto
  then have "rounded x \<in> set ?ys" "la (rounded x) = la r"
    by (simp, simp add: rounded_def)
  then have "find (\<lambda>a. la a = la r) ?ys \<noteq> None" by (auto simp: find_None_iff)
  then show ?thesis unfolding res eur_of_def by auto
qed

section \<open>Lower bounds of the allocations\<close>
















section \<open>Facts about allocateBudget used below\<close>


text \<open>In exact arithmetic the final renormalisation of \<open>allocateBudget\<close> makes the
  allocations sum to the budget.\<close>

lemma allocateBudget_sum:
  assumes "scores \<noteq> []" and "0 < budget" and "0 \<le> maxShare opts" and "- 1 \<le> ruralUplift opts"
  shows "sum_list (map snd (allocateBudget scores budget opts)) = budget"
proof -
  let ?S = "sum_list (alloc_raw scores budget opts)"
  have S: "0 < ?S" using assms by (rule alloc_raw_sum_pos)
  have "sum_list (map snd (allocateBudget scores budget opts)) = ?S * (budget / or_one ?S)"
    unfolding allocateBudget_snd by (simp only: sum_list_mult_const) simp
  also have "\<dots> = budget" using S by (simp add: or_one_def)
  finally show ?thesis .
qed

text \<open>\<open>allocateBudget\<close> on scores \<open>[0, c, 2c]\<close> with budget 300000 and floor 50000: the
  floor block raises the first region to the floor and takes 12500 and 37500 from the
  two donors.\<close>

lemma allocateBudget_floor_scenario:
  assumes "0 < c"
  shows "allocateBudget [(n1, 0), (n2, c), (n3, 2 * c)] 300000 (plain_opts 1 50000)
         = [(n1, 50000), (n2, 87500), (n3, 162500)]"
  using assms by (simp add: allocateBudget_defs)

section \<open>Budget conservation\<close>

text \<open>
  Claim C1 states that the allocations sum to the budget within a relative epsilon of
  \<open>1e-6\<close> in both engines. \<open>scoreAndAllocate\<close> does not: on three regions with growth
  \<open>[10, 20, 30]\<close>, weight 1 on growth, budget 300000 and floor 50000 the shares are
  \<open>[0, 1/3, 2/3]\<close>, the first map gives \<open>[50000, 100000, 200000]\<close>, so \<open>spent\<close> is 350000
  and \<open>rem = Math.max(0, B - spent)\<close> is 0: the branch that re-balances towards the
  budget has no case for \<open>spent > B\<close>. The returned allocations sum to 350000.
\<close>

theorem scoreAndAllocate_overspends:
  "sum_eur (scoreAndAllocate rows3 growth_only (lib_opts None (Some 50000) None 300000)) = 350000
   \<and> \<not> within_eps
       (sum_eur (scoreAndAllocate rows3 growth_only (lib_opts None (Some 50000) None 300000)))
       300000"
  by (simp add: scoreAndAllocate_defs sample_defs within_eps_def sum_eur_def)

section \<open>The floor-redistribution scenario\<close>

text \<open>
  Claim C2 states that on three regions with growth \<open>[10, 20, 30]\<close>, weight 1 on growth,
  budget 300000 and floor 50000 the allocations are \<open>[50000, 87500, 162500]\<close>.
  \<open>scoreAndAllocate\<close> returns 50000, 100000 and 200000 (sorted by decreasing amount): the
  region with score zero is raised to the floor and nothing is recovered from the two
  donors.
\<close>

theorem scoreAndAllocate_no_donor_recovery:
  "scoreAndAllocate rows3 growth_only (lib_opts None (Some 50000) None 300000) =
   Inr [\<lparr>la = ''C'', score = 1, share = 2 / 3, eur = 200000\<rparr>,
        \<lparr>la = ''B'', score = 1 / 2, share = 1 / 3, eur = 100000\<rparr>,
        \<lparr>la = ''A'', score = 0, share = 0, eur = 50000\<rparr>]"
  by (simp add: scoreAndAllocate_defs sample_defs)

section \<open>Non-negativity and the floor\<close>





section \<open>Budget validation\<close>






section \<open>Monotonicity\<close>

text \<open>
  Claim C9 states that raising a region's benefit indicator never lowers its allocation
  from \<open>scoreAndAllocate\<close>. With a cap of one half of a budget of 100, region A gets 8
  euros; raising its growth value from 0 to 1 leaves its score at zero, moves share from
  the capped region B to region C, so that nothing remains to top up, and A gets 0.
\<close>

theorem raising_growth_lowers_allocation:
  "eur_of ''A'' (scoreAndAllocate
       [row2 ''A'' 0 0 None, row2 ''B'' 1 10 None, row2 ''C'' 2 0 None]
       benefit_only (lib_opts None None (Some (1 / 2)) 100)) = Some 8
   \<and> eur_of ''A'' (scoreAndAllocate
       [row2 ''A'' 1 0 None, row2 ''B'' 1 10 None, row2 ''C'' 2 0 None]
       benefit_only (lib_opts None None (Some (1 / 2)) 100)) = Some 0"
  by (simp add: scoreAndAllocate_defs sample_defs eur_of_def)

text \<open>The property also needs weights and a budget that are not negative, and region
  keys that are distinct. With weight -1 on the old-age dependency ratio, raising that
  ratio for region B lowers its allocation from 67 to 50. With budget -300, raising the
  growth of region B lowers its allocation from -100 to -129. With two rows under the
  key A, raising the growth of the first lowers the amount reported under A from 60 to
  56.\<close>

lemma negative_weight_not_monotone:
  "eur_of ''B'' (scoreAndAllocate
       [row2 ''A'' 0 1 None, row2 ''B'' 1 0 None, row2 ''C'' 2 2 None]
       growth_against_oadr (lib_opts None None None 100)) = Some 67
   \<and> eur_of ''B'' (scoreAndAllocate
       [row2 ''A'' 0 1 None, row2 ''B'' 1 1 None, row2 ''C'' 2 2 None]
       growth_against_oadr (lib_opts None None None 100)) = Some 50"
  by (simp add: scoreAndAllocate_defs sample_defs growth_against_oadr_def eur_of_def)

lemma negative_budget_not_monotone:
  "eur_of ''B'' (scoreAndAllocate [row3 ''A'' 10, row3 ''B'' 20, row3 ''C'' 30]
       growth_only (lib_opts None None None (- 300))) = Some (- 100)
   \<and> eur_of ''B'' (scoreAndAllocate [row3 ''A'' 10, row3 ''B'' 25, row3 ''C'' 30]
       growth_only (lib_opts None None None (- 300))) = Some (- 129)"
  by (simp add: scoreAndAllocate_defs sample_defs eur_of_def)

lemma duplicate_key_not_monotone:
  "eur_of ''A'' (scoreAndAllocate
       [row2 ''A'' 2 0 None, row2 ''A'' 1 10 None, row2 ''Z'' 0 0 None]
       benefit_only (lib_opts None None None 100)) = Some 60
   \<and> eur_of ''A'' (scoreAndAllocate
       [row2 ''A'' 4 0 None, row2 ''A'' 1 10 None, row2 ''Z'' 0 0 None]
       benefit_only (lib_opts None None None 100)) = Some 56"
  by (simp add: scoreAndAllocate_defs sample_defs eur_of_def)

text \<open>
  Claim C9 as the code has it, in exact arithmetic on finite numbers (the numbers are
  reals here; the rounding of IEEE doubles before \<open>Math.round\<close> is not part of the
  statement). With weights and budget that are not negative, distinct region keys and no
  cap below 1 (\<open>capShare\<close> absent or at least 1), raising the growth value and the
  old-age dependency ratio of one region (either or both), all else fixed, never lowers
  the \<open>eur\<close> that \<open>scoreAndAllocate\<close> returns for that region.
\<close>

theorem benefit_monotone_without_cap:
  assumes "nonneg_weights w" and "0 \<le> budgetEUR opt" and "1 \<le> nullish (capShare opt) 1"
    and "distinct (map la (pre @ r # post))"
    and "growth65 r \<le> g'" and "oadr r \<le> o'"
  shows "\<exists>e e'. eur_of (la r) (scoreAndAllocate (pre @ r # post) w opt) = Some e
           \<and> eur_of (la r)
                (scoreAndAllocate (pre @ r\<lparr>growth65 := g', oadr := o'\<rparr> # post) w opt) = Some e'
           \<and> e \<le> e'"
proof -
  define r' where "r' = r\<lparr>growth65 := g', oadr := o'\<rparr>"
  define rows where "rows = pre @ r # post"
  define rows' where "rows' = pre @ r' # post"
  have la': "la r' = la r" by (simp add: r'_def)
  have mem: "r \<in> set rows" "r' \<in> set rows'" by (simp_all add: rows_def rows'_def)
  have d: "distinct (map la rows)" using assms(4) by (simp add: rows_def)
  have d': "distinct (map la rows')" using assms(4) by (simp add: rows'_def la')
  have goal: "\<exists>e e'. eur_of (la r) (scoreAndAllocate rows w opt) = Some e
           \<and> eur_of (la r) (scoreAndAllocate rows' w opt) = Some e' \<and> e \<le> e'"
  proof (cases "0 < wGrowth w \<or> 0 < wOadr w")
    case False
    then have z: "wGrowth w = 0" "wOadr w = 0" using assms(1) by (auto simp: nonneg_weights_def)
    have c: "map dwellingsPer1k65 rows' = map dwellingsPer1k65 rows"
      "map medianIncome rows' = map medianIncome rows"
      "map grantsPer65 rows' = map grantsPer65 rows"
      by (simp_all add: rows_def rows'_def r'_def)
    have sq: "score_in rows' w opt q = score_in rows w opt q" for q
      by (simp add: score_in_def weighted_sum_def z c)
    have sr: "score_in rows' w opt r' = score_in rows w opt r"
      by (simp add: score_in_def weighted_sum_def z c uplift_factor_def r'_def)
    have "items_of rows' w opt = items_of rows w opt"
      unfolding items_of_map using sq sr la' by (simp add: rows_def rows'_def)
    then have "allocs_of rows' w opt = allocs_of rows w opt"
      by (simp add: allocs_of_def)
    then have "scoreAndAllocate rows' w opt = scoreAndAllocate rows w opt"
      by (simp add: scoreAndAllocate_def)
    then show ?thesis using eur_of_exists [OF mem(1), of w opt] by auto
  next
    case True
    let ?T = "sum_list (map (score_in rows w opt) rows)"
    let ?T' = "sum_list (map (score_in rows' w opt) rows')"
    let ?s = "score_in rows w opt r" and ?s' = "score_in rows' w opt r'"
    let ?R = "sum_list (map (score_in rows w opt) (pre @ post))"
    let ?R' = "sum_list (map (score_in rows' w opt) (pre @ post))"
    have T: "0 < ?T" using assms(1) _ True by (rule score_total_pos) (simp add: rows_def)
    have T': "0 < ?T'" using assms(1) _ True by (rule score_total_pos) (simp add: rows'_def)
    have a: "allocs_of rows w opt = Inr (map (alloc_in rows w opt) rows)"
      using assms(1,2,3) T by (rule allocs_of_nocap)
    have a': "allocs_of rows' w opt = Inr (map (alloc_in rows' w opt) rows')"
      using assms(1,2,3) T' by (rule allocs_of_nocap)
    have e: "eur_of (la r) (scoreAndAllocate rows w opt)
        = Some (Math_round (eur_nocap opt (?s / or_one ?T)))"
      using eur_of_allocs [OF a _ d mem(1)] by (simp add: alloc_in_def)
    have e': "eur_of (la r) (scoreAndAllocate rows' w opt)
        = Some (Math_round (eur_nocap opt (?s' / or_one ?T')))"
      using eur_of_allocs [OF a' _ d' mem(2)] by (simp add: alloc_in_def la')
    have Ts: "?T = ?s + ?R" by (simp add: rows_def)
    have Ts': "?T' = ?s' + ?R'" by (simp add: rows'_def)
    have s0: "0 \<le> ?s" using assms(1) mem(1) by (rule score_in_nonneg)
    have ss: "?s \<le> ?s'"
      unfolding rows_def rows'_def r'_def using assms(1,5,6) by (rule score_in_raise_self)
    have R0: "0 \<le> ?R'"
    proof (rule sum_list_nonneg)
      fix x assume "x \<in> set (map (score_in rows' w opt) (pre @ post))"
      then obtain q where "q \<in> set (pre @ post)" "x = score_in rows' w opt q" by auto
      moreover from this have "q \<in> set rows'" by (auto simp: rows'_def)
      ultimately show "0 \<le> x" using score_in_nonneg [OF assms(1)] by simp
    qed
    have RR: "?R' \<le> ?R"
    proof (rule sum_list_mono)
      fix q assume "q \<in> set (pre @ post)"
      with assms(1,5,6) show "score_in rows' w opt q \<le> score_in rows w opt q"
        unfolding rows_def rows'_def r'_def by (rule score_in_raise_other)
    qed
    have "?s / or_one ?T \<le> ?s' / or_one ?T'"
      unfolding Ts Ts' using s0 ss R0 RR by (rule share_mono)
    then have "eur_nocap opt (?s / or_one ?T) \<le> eur_nocap opt (?s' / or_one ?T')"
      using assms(2) by (intro eur_nocap_mono)
    then have "Math_round (eur_nocap opt (?s / or_one ?T))
        \<le> Math_round (eur_nocap opt (?s' / or_one ?T'))"
      by (rule Math_round_mono)
    with e e' show ?thesis by simp
  qed
  then show ?thesis by (simp add: rows_def rows'_def r'_def)
qed

theorem benefit_monotone_without_cap_witness:
  "nonneg_weights benefit_only \<and> 0 \<le> budgetEUR (lib_opts None None None 100)
   \<and> 1 \<le> nullish (capShare (lib_opts None None None 100)) 1
   \<and> distinct (map la ([row2 ''A'' 0 0 None] @ row2 ''B'' 1 10 None # [row2 ''C'' 2 0 None]))
   \<and> growth65 (row2 ''B'' 1 10 None) \<le> 3 \<and> oadr (row2 ''B'' 1 10 None) \<le> 10
   \<and> eur_of ''B'' (scoreAndAllocate
        ([row2 ''A'' 0 0 None] @ row2 ''B'' 1 10 None # [row2 ''C'' 2 0 None])
        benefit_only (lib_opts None None None 100)) = Some 60
   \<and> eur_of ''B'' (scoreAndAllocate
        ([row2 ''A'' 0 0 None] @ (row2 ''B'' 1 10 None)\<lparr>growth65 := 3, oadr := 10\<rparr>
           # [row2 ''C'' 2 0 None])
        benefit_only (lib_opts None None None 100)) = Some 75
   \<and> (60 :: real) \<le> 75"
proof -
  let ?opt = "lib_opts None None None 100"
  let ?pre = "[row2 ''A'' 0 0 None]" and ?r = "row2 ''B'' 1 10 None"
  let ?post = "[row2 ''C'' 2 0 None]"
  have h: "nonneg_weights benefit_only" "0 \<le> budgetEUR ?opt" "1 \<le> nullish (capShare ?opt) 1"
    "distinct (map la (?pre @ ?r # ?post))" "growth65 ?r \<le> 3" "oadr ?r \<le> 10"
    by (simp_all add: nonneg_weights_def sample_defs nullish_def)
  have la: "la ?r = ''B''" by (simp add: row2_def)
  have ev: "eur_of ''B'' (scoreAndAllocate (?pre @ ?r # ?post) benefit_only ?opt) = Some 60"
    "eur_of ''B'' (scoreAndAllocate (?pre @ ?r\<lparr>growth65 := 3, oadr := 10\<rparr> # ?post)
        benefit_only ?opt) = Some 75"
    by (simp_all add: scoreAndAllocate_defs sample_defs eur_of_def)
  from benefit_monotone_without_cap [OF h]
  obtain e e' where "eur_of (la ?r) (scoreAndAllocate (?pre @ ?r # ?post) benefit_only ?opt) = Some e"
    "eur_of (la ?r) (scoreAndAllocate (?pre @ ?r\<lparr>growth65 := 3, oadr := 10\<rparr> # ?post)
        benefit_only ?opt) = Some e'" "e \<le> e'"
    by blast
  then have "(60 :: real) \<le> 75" unfolding la ev by simp
  with h ev show ?thesis by blast
qed

section \<open>Rounding of the returned allocations\<close>





end
